theory Spec2Isabelle
  imports Complex_Main "HOL-Library.Word" "HOL-Library.Log_Nat"
begin

section \<open>Single-precision arithmetic\<close>

text \<open>
  The gradient of \<^verbatim>\<open>beauty_landing.cpp\<close> is computed in C++ \<^verbatim>\<open>float\<close>, that is IEEE 754
  binary32 with round-to-nearest, ties-to-even, each operation rounded on its own (no
  wider intermediate precision, no fused multiply-add). A finite binary32 value is a
  rational number, and every operation returns the correctly rounded exact result, so a
  float is modelled as the \<^typ>\<open>rat\<close> it denotes and an operation as the exact operation
  followed by \<open>f32_round\<close>. The rounding has 24 significant bits above \<open>2 powi (- 126)\<close>
  and the fixed quantum \<open>2 powi (- 149)\<close> below (subnormals). Overflow to infinity
  (results of magnitude \<open>2 powi 128\<close> and more) is not modelled: every operand of the
  program is an unsigned 32-bit integer, a colour channel, or a quotient or product of
  such. A division by zero is not modelled either: the only divisor is the height, and
  with height 0 no row is computed.
\<close>

definition ilog2 :: "rat \<Rightarrow> int" where
  \<comment> \<open>for \<open>0 < x\<close>: the exponent \<open>e\<close> with \<open>2 powi e \<le> x < 2 powi (e + 1)\<close>\<close>
  "ilog2 x = (if 1 \<le> x then bitlen \<lfloor>x\<rfloor> - 1 else - bitlen (\<lceil>1 / x\<rceil> - 1))"

definition rne :: "rat \<Rightarrow> int" where
  \<comment> \<open>nearest integer, ties to the even one\<close>
  "rne z = (let f = \<lfloor>z\<rfloor>; d = z - of_int f in
      if d < 1 / 2 then f
      else if 1 / 2 < d then f + 1
      else if even f then f else f + 1)"

definition f32_exponent :: "rat \<Rightarrow> int" where
  "f32_exponent x = max (ilog2 \<bar>x\<bar>) (- 126)"

definition f32_round :: "rat \<Rightarrow> rat" where
  "f32_round x = (if x = 0 then 0
     else let q = 2 powi (f32_exponent x - 23) in of_int (rne (x / q)) * q)"

definition f32_of_nat :: "nat \<Rightarrow> rat" where
  \<comment> \<open>\<^verbatim>\<open>float(y)\<close> for an \<^verbatim>\<open>unsigned\<close> y\<close>
  "f32_of_nat n = f32_round (of_nat n)"

definition f32_of_int :: "int \<Rightarrow> rat" where
  \<comment> \<open>the implicit conversion of an \<^verbatim>\<open>int\<close> operand to \<^verbatim>\<open>float\<close>\<close>
  "f32_of_int n = f32_round (of_int n)"

definition f32_div :: "rat \<Rightarrow> rat \<Rightarrow> rat" where
  "f32_div x y = f32_round (x / y)"

definition f32_mul :: "rat \<Rightarrow> rat \<Rightarrow> rat" where
  "f32_mul x y = f32_round (x * y)"

definition f32_add :: "rat \<Rightarrow> rat \<Rightarrow> rat" where
  "f32_add x y = f32_round (x + y)"

definition truncate_int :: "rat \<Rightarrow> int" where
  \<comment> \<open>the integral part, rounding towards zero\<close>
  "truncate_int v = (if 0 \<le> v then \<lfloor>v\<rfloor> else \<lceil>v\<rceil>)"

definition cast_u8 :: "rat \<Rightarrow> 8 word" where
  \<comment> \<open>\<^verbatim>\<open>static_cast<sf::Uint8>(v)\<close>: the fraction is discarded. C++ leaves a value outside
     0..255 undefined; the model reduces it modulo 256 as the usual targets do.\<close>
  "cast_u8 v = word_of_int (truncate_int v)"

section \<open>Colours and images\<close>

text \<open>
  \<^verbatim>\<open>sf::Color\<close> has the four 8-bit fields r, g, b, a; they are called \<open>red\<close>, \<open>green\<close>,
  \<open>blue\<close>, \<open>alpha\<close> here. The three-argument constructor sets \<open>alpha\<close> to 255.
  \<^verbatim>\<open>sf::Image\<close> is a store of pixels addressed by (x, y): \<open>create\<close> makes every pixel
  of the grid black and opaque (an image with a zero side has no pixel at all),
  \<open>setPixel\<close> overwrites one pixel and \<open>getPixel\<close> reads one.
\<close>

record Color =
  red :: "8 word"
  green :: "8 word"
  blue :: "8 word"
  alpha :: "8 word"

definition mk_color :: "8 word \<Rightarrow> 8 word \<Rightarrow> 8 word \<Rightarrow> Color" where
  "mk_color cr cg cb = \<lparr>red = cr, green = cg, blue = cb, alpha = 255\<rparr>"

record Image =
  size_x :: nat
  size_y :: nat
  pixels :: "nat \<times> nat \<Rightarrow> Color option"

definition create :: "nat \<Rightarrow> nat \<Rightarrow> Image" where
  "create w h =
     (if w \<noteq> 0 \<and> h \<noteq> 0
      then \<lparr>size_x = w, size_y = h,
            pixels = (\<lambda>(x, y). if x < w \<and> y < h then Some (mk_color 0 0 0) else None)\<rparr>
      else \<lparr>size_x = 0, size_y = 0, pixels = (\<lambda>p. None)\<rparr>)"

definition setPixel :: "nat \<Rightarrow> nat \<Rightarrow> Color \<Rightarrow> Image \<Rightarrow> Image" where
  "setPixel x y c img = img\<lparr>pixels := (pixels img)((x, y) \<mapsto> c)\<rparr>"

definition getPixel :: "Image \<Rightarrow> nat \<Rightarrow> nat \<Rightarrow> Color option" where
  "getPixel img x y = pixels img (x, y)"

section \<open>The gradient\<close>

text \<open>
  Lines 8 to 20 of \<open>main\<close>. The source writes the dimensions 600 and 400 and the channels
  of the two colours (24, 18, 43) and (255, 56, 100) as literals; the definitions take
  them as the parameters \<open>w\<close>, \<open>h\<close>, \<open>A\<close>, \<open>B\<close>, and \<open>bgImage\<close> below puts the literals
  back. The loop counters are \<^verbatim>\<open>unsigned\<close>, so no dimension is negative. The
  divisor \<^verbatim>\<open>400.0f\<close> of the source is the height as a \<^verbatim>\<open>float\<close>, so with the height
  a parameter it is \<open>f32_of_nat h\<close>.
\<close>

definition lerp_t :: "nat \<Rightarrow> nat \<Rightarrow> rat" where
  \<comment> \<open>\<^verbatim>\<open>float t = float(y) / 400.0f\<close>\<close>
  "lerp_t y h = f32_div (f32_of_nat y) (f32_of_nat h)"

definition lerp_value :: "rat \<Rightarrow> int \<Rightarrow> int \<Rightarrow> rat" where
  \<comment> \<open>\<^verbatim>\<open>24 + t * (255 - 24)\<close>: an \<^verbatim>\<open>int\<close> difference, a \<^verbatim>\<open>float\<close> product and sum\<close>
  "lerp_value t c0 c1 = f32_add (f32_of_int c0) (f32_mul t (f32_of_int (c1 - c0)))"

definition lerp_channel :: "rat \<Rightarrow> 8 word \<Rightarrow> 8 word \<Rightarrow> 8 word" where
  "lerp_channel t c0 c1 = cast_u8 (lerp_value t (uint c0) (uint c1))"

definition pixel_color :: "nat \<Rightarrow> Color \<Rightarrow> Color \<Rightarrow> nat \<Rightarrow> Color" where
  "pixel_color h A B y =
     (let t = lerp_t y h
      in mk_color (lerp_channel t (red A) (red B))
                  (lerp_channel t (green A) (green B))
                  (lerp_channel t (blue A) (blue B)))"

function x_loop :: "nat \<Rightarrow> nat \<Rightarrow> Color \<Rightarrow> Color \<Rightarrow> nat \<Rightarrow> nat \<Rightarrow> Image \<Rightarrow> Image" where
  "x_loop w h A B y x img =
     (if x < w then x_loop w h A B y (Suc x) (setPixel x y (pixel_color h A B y) img)
      else img)"
  by pat_completeness auto
termination
  by (relation "measure (\<lambda>(w, h, A, B, y, x, img). w - x)") auto

function y_loop :: "nat \<Rightarrow> nat \<Rightarrow> Color \<Rightarrow> Color \<Rightarrow> nat \<Rightarrow> Image \<Rightarrow> Image" where
  "y_loop w h A B y img =
     (if y < h then y_loop w h A B (Suc y) (x_loop w h A B y 0 img)
      else img)"
  by pat_completeness auto
termination
  by (relation "measure (\<lambda>(w, h, A, B, y, img). h - y)") auto

declare x_loop.simps [simp del]
declare y_loop.simps [simp del]

definition gradient :: "nat \<Rightarrow> nat \<Rightarrow> Color \<Rightarrow> Color \<Rightarrow> Image" where
  "gradient w h A B = y_loop w h A B 0 (create w h)"

datatype error = InvalidDimension

definition generate :: "nat \<Rightarrow> nat \<Rightarrow> Color \<Rightarrow> Color \<Rightarrow> error + Image" where
  \<comment> \<open>Lines 8 to 20 under the name and the result type the specification gives the
     operation. The source has no counterpart of the error: it tests no dimension and
     has no failing branch in these lines.\<close>
  "generate w h A B = Inr (gradient w h A B)"

definition startColor :: Color where
  "startColor = mk_color 24 18 43"

definition endColor :: Color where
  "endColor = mk_color 255 56 100"

definition bgImage :: Image where
  "bgImage = gradient 600 400 startColor endColor"

section \<open>The program\<close>

text \<open>
  What \<open>main\<close> does besides the gradient is calls into the graphics library. The model
  keeps their order as a trace and takes from the environment what the library reports:
  whether the window opened, whether the font file loaded, and the events delivered to
  each pass of the outer loop. The result is the exit status, or \<open>None\<close> when the
  events run out while the window is still open (the program is still running).
\<close>

datatype event = Closed | OtherEvent

datatype text_object = Title | Desc | BtnText

datatype action =
    OpenWindow
  | BuildBackground
  | LoadFont
  | CreateText text_object
  | CreateButton
  | PollEvents
  | Render

record env =
  window_opens :: bool
  font_loads :: bool
  frames :: "event list list"

fun pollEvent :: "event list \<Rightarrow> bool \<Rightarrow> bool" where
  "pollEvent [] isOpen = isOpen"
| "pollEvent (e # es) isOpen = pollEvent es (if e = Closed then False else isOpen)"

fun event_loop :: "event list list \<Rightarrow> bool \<Rightarrow> action list \<Rightarrow> action list \<times> int option" where
  "event_loop [] isOpen tr = (if isOpen then (tr, None) else (tr, Some 0))"
| "event_loop (f # fs) isOpen tr =
     (if isOpen then event_loop fs (pollEvent f isOpen) (tr @ [PollEvents, Render])
      else (tr, Some 0))"

record outcome =
  background :: Image
  trace :: "action list"
  exit_status :: "int option"

definition main :: "env \<Rightarrow> outcome" where
  "main e =
     (let tr = [OpenWindow, BuildBackground, LoadFont]
      in if \<not> font_loads e
         then \<lparr>background = bgImage, trace = tr, exit_status = Some 1\<rparr>
         else (let (tr', st) = event_loop (frames e) (window_opens e)
                    (tr @ [CreateText Title, CreateText Desc, CreateButton, CreateText BtnText])
               in \<lparr>background = bgImage, trace = tr', exit_status = st\<rparr>))"

definition rgb :: "Color \<Rightarrow> 8 word \<times> 8 word \<times> 8 word" where
  \<comment> \<open>the three colour channels of a pixel, without its opacity\<close>
  "rgb c = (red c, green c, blue c)"

section \<open>Rounding to the nearest integer\<close>

lemma rne_of_int: "rne (of_int n) = n"
  by (simp add: rne_def)

lemma rne_floor_le: "\<lfloor>z\<rfloor> \<le> rne z"
  by (simp add: rne_def Let_def)

lemma rne_le_floor_Suc: "rne z \<le> \<lfloor>z\<rfloor> + 1"
  by (simp add: rne_def Let_def)

lemma rne_mono:
  assumes "z \<le> z'"
  shows "rne z \<le> rne z'"
proof (cases "\<lfloor>z\<rfloor> = \<lfloor>z'\<rfloor>")
  case True
  with assms show ?thesis by (auto simp: rne_def Let_def)
next
  case False
  with assms have "\<lfloor>z\<rfloor> < \<lfloor>z'\<rfloor>" by (simp add: floor_mono order.strict_iff_order)
  then have "rne z \<le> \<lfloor>z'\<rfloor>" using rne_le_floor_Suc [of z] by linarith
  then show ?thesis using rne_floor_le [of z'] by linarith
qed

lemma rne_minus: "rne (- z) = - rne z"
proof (cases "z = of_int \<lfloor>z\<rfloor>")
  case True
  then obtain n where n: "z = of_int n" ..
  have "rne (of_int (- n)) = - n" by (rule rne_of_int)
  then show ?thesis by (simp add: n rne_of_int)
next
  case False
  then have "\<lceil>z\<rceil> = \<lfloor>z\<rfloor> + 1" by (simp add: ceiling_altdef)
  then have fl: "\<lfloor>- z\<rfloor> = - \<lfloor>z\<rfloor> - 1" by (simp add: ceiling_def)
  show ?thesis
    unfolding rne_def Let_def fl by (auto simp: algebra_simps)
qed

section \<open>The binary exponent\<close>

lemma bitlen_ge_1: "0 < m \<Longrightarrow> 1 \<le> bitlen m"
  using bitlen_eq_zero_iff [of m] bitlen_nonneg [of m] by linarith

lemma ilog2_lower:
  assumes "0 < x"
  shows "2 powi ilog2 x \<le> x"
proof (cases "1 \<le> x")
  case True
  then have n: "0 < \<lfloor>x\<rfloor>" by simp
  from bitlen_bounds [OF n] have "(2::int) ^ nat (bitlen \<lfloor>x\<rfloor> - 1) \<le> \<lfloor>x\<rfloor>" by simp
  then have "rat_of_int (2 ^ nat (bitlen \<lfloor>x\<rfloor> - 1)) \<le> of_int \<lfloor>x\<rfloor>"
    by (simp only: of_int_le_iff)
  then have "(2::rat) ^ nat (bitlen \<lfloor>x\<rfloor> - 1) \<le> x" by (simp add: le_floor_iff)
  moreover have "0 \<le> bitlen \<lfloor>x\<rfloor> - 1" using bitlen_ge_1 [OF n] by simp
  ultimately show ?thesis using True by (simp add: ilog2_def power_int_nonneg_exp)
next
  case False
  define z where "z = 1 / x"
  define m where "m = \<lceil>z\<rceil> - 1"
  have z1: "1 < z" using False assms by (simp add: z_def)
  then have m: "0 < m" unfolding m_def by (simp add: less_ceiling_iff)
  have "m + 1 \<le> 2 ^ nat (bitlen m)" using bitlen_bounds [OF m] by simp
  then have "rat_of_int (m + 1) \<le> rat_of_int (2 ^ nat (bitlen m))"
    by (simp only: of_int_le_iff)
  then have "rat_of_int m + 1 \<le> 2 ^ nat (bitlen m)" by simp
  moreover have "z \<le> of_int m + 1" unfolding m_def by simp
  ultimately have "z \<le> 2 ^ nat (bitlen m)" by (rule order.trans [rotated])
  then have "1 / 2 ^ nat (bitlen m) \<le> x" using assms unfolding z_def
    by (simp add: field_simps)
  moreover have "ilog2 x = - bitlen m" using False by (simp add: ilog2_def m_def z_def)
  ultimately show ?thesis
    by (simp add: power_int_minus_divide power_int_nonneg_exp bitlen_nonneg)
qed

lemma ilog2_upper:
  assumes "0 < x"
  shows "x < 2 powi (ilog2 x + 1)"
proof (cases "1 \<le> x")
  case True
  then have n: "0 < \<lfloor>x\<rfloor>" by simp
  from bitlen_bounds [OF n] have "\<lfloor>x\<rfloor> < (2::int) ^ nat (bitlen \<lfloor>x\<rfloor>)" by simp
  then have "x < rat_of_int (2 ^ nat (bitlen \<lfloor>x\<rfloor>))" by (simp only: floor_less_iff)
  then have "x < 2 ^ nat (bitlen \<lfloor>x\<rfloor>)" by simp
  then show ?thesis using True by (simp add: ilog2_def power_int_nonneg_exp bitlen_nonneg)
next
  case False
  define z where "z = 1 / x"
  define m where "m = \<lceil>z\<rceil> - 1"
  have z1: "1 < z" using False assms by (simp add: z_def)
  then have m: "0 < m" unfolding m_def by (simp add: less_ceiling_iff)
  then have k: "1 \<le> bitlen m" by (rule bitlen_ge_1)
  have "(2::int) ^ nat (bitlen m - 1) \<le> m" using bitlen_bounds [OF m] by simp
  then have "rat_of_int (2 ^ nat (bitlen m - 1)) \<le> of_int m" by (simp only: of_int_le_iff)
  then have "(2::rat) ^ nat (bitlen m - 1) \<le> of_int m" by simp
  also have "of_int m < z" using ceiling_correct [of z] by (simp add: m_def)
  finally have "2 ^ nat (bitlen m - 1) < z" .
  then have "x < 1 / 2 ^ nat (bitlen m - 1)" using assms unfolding z_def
    by (simp add: field_simps)
  moreover have "ilog2 x + 1 = - (bitlen m - 1)"
    using False by (simp add: ilog2_def m_def z_def)
  moreover have "(2::rat) powi (- (bitlen m - 1)) = 1 / 2 ^ nat (bitlen m - 1)" using k
    by (simp only: power_int_minus_divide) (simp add: power_int_nonneg_exp)
  ultimately show ?thesis by simp
qed

lemma ilog2_mono:
  assumes "0 < x" "x \<le> y"
  shows "ilog2 x \<le> ilog2 y"
proof -
  have "2 powi ilog2 x \<le> x" using assms ilog2_lower by simp
  also have "x \<le> y" by fact
  also have "y < 2 powi (ilog2 y + 1)" using assms ilog2_upper by simp
  finally have "(2::rat) powi ilog2 x < 2 powi (ilog2 y + 1)" .
  then have "ilog2 x < ilog2 y + 1"
    using power_int_increasing [of "ilog2 y + 1" "ilog2 x" "2::rat"] by force
  then show ?thesis by simp
qed

section \<open>Rounding to binary32\<close>

lemma f32_round_0: "f32_round 0 = 0"
  by (simp add: f32_round_def)

lemma f32_exponent_minus: "f32_exponent (- x) = f32_exponent x"
  by (simp add: f32_exponent_def)

lemma f32_round_minus: "f32_round (- x) = - f32_round x"
  by (simp add: f32_round_def f32_exponent_minus rne_minus Let_def)

lemma pow2_pos: "0 < (2::rat) powi e"
  by simp

lemma pow2_split: "(2::rat) powi (e + 1) = 2 ^ 24 * 2 powi (e - 23)"
proof -
  have "(2::rat) powi (e + 1) = 2 powi (24 + (e - 23))"
    by (rule arg_cong [where f = "\<lambda>n. 2 powi n"]) simp
  also have "\<dots> = 2 powi 24 * 2 powi (e - 23)" by (rule power_int_add) simp
  finally show ?thesis by simp
qed

lemma pow2_split': "(2::rat) powi e = 2 ^ 23 * 2 powi (e - 23)"
proof -
  have "(2::rat) powi e = 2 powi (23 + (e - 23))"
    by (rule arg_cong [where f = "\<lambda>n. 2 powi n"]) simp
  also have "\<dots> = 2 powi 23 * 2 powi (e - 23)" by (rule power_int_add) simp
  finally show ?thesis by simp
qed

lemma f32_round_pos_eq:
  "x \<noteq> 0 \<Longrightarrow> f32_round x = of_int (rne (x / 2 powi (f32_exponent x - 23))) * 2 powi (f32_exponent x - 23)"
  by (simp add: f32_round_def Let_def)

lemma f32_round_upper:
  assumes "0 < x"
  shows "f32_round x \<le> 2 powi (f32_exponent x + 1)"
proof -
  define e where "e = f32_exponent x"
  define q :: rat where "q = 2 powi (e - 23)"
  have q: "0 < q" unfolding q_def by (rule pow2_pos)
  have "ilog2 x \<le> e" using assms by (simp add: e_def f32_exponent_def)
  then have "(2::rat) powi (ilog2 x + 1) \<le> 2 powi (e + 1)"
    by (intro power_int_increasing) simp_all
  with ilog2_upper [OF assms] have "x < 2 powi (e + 1)" by simp
  then have "x < 2 ^ 24 * q" by (simp add: pow2_split q_def)
  then have "x / q \<le> of_int (2 ^ 24)" using q by (simp add: field_simps)
  then have "rne (x / q) \<le> rne (of_int (2 ^ 24))" by (rule rne_mono)
  then have "rne (x / q) \<le> 2 ^ 24" by (simp only: rne_of_int)
  then have "rat_of_int (rne (x / q)) \<le> of_int (2 ^ 24)" by (simp only: of_int_le_iff)
  then have "rat_of_int (rne (x / q)) * q \<le> 2 ^ 24 * q" using q by simp
  then show ?thesis using assms
    by (simp add: f32_round_pos_eq e_def [symmetric] q_def [symmetric] pow2_split)
qed

lemma f32_round_lower:
  assumes "0 < x" "- 126 \<le> ilog2 x"
  shows "2 powi (f32_exponent x) \<le> f32_round x"
proof -
  define e where "e = f32_exponent x"
  define q :: rat where "q = 2 powi (e - 23)"
  have q: "0 < q" unfolding q_def by (rule pow2_pos)
  have "ilog2 x = e" using assms by (simp add: e_def f32_exponent_def)
  with ilog2_lower [OF assms(1)] have "2 powi e \<le> x" by simp
  then have "2 ^ 23 * q \<le> x" using pow2_split' [of e] by (simp add: q_def)
  then have "of_int (2 ^ 23) \<le> x / q" using q by (simp add: field_simps)
  then have "rne (of_int (2 ^ 23)) \<le> rne (x / q)" by (rule rne_mono)
  then have "2 ^ 23 \<le> rne (x / q)" by (simp only: rne_of_int)
  then have "rat_of_int (2 ^ 23) \<le> of_int (rne (x / q))" by (simp only: of_int_le_iff)
  then have "2 ^ 23 * q \<le> rat_of_int (rne (x / q)) * q" using q by simp
  then show ?thesis using assms pow2_split' [of e]
    by (simp add: f32_round_pos_eq e_def [symmetric] q_def [symmetric])
qed

lemma f32_round_nonneg:
  assumes "0 \<le> x"
  shows "0 \<le> f32_round x"
proof (cases "x = 0")
  case True
  then show ?thesis by (simp add: f32_round_0)
next
  case False
  have "0 \<le> x / 2 powi (f32_exponent x - 23)" using assms pow2_pos [of "f32_exponent x - 23"]
    by simp
  then have "rne (of_int 0) \<le> rne (x / 2 powi (f32_exponent x - 23))"
    by (intro rne_mono) simp
  then have "0 \<le> rne (x / 2 powi (f32_exponent x - 23))" by (simp only: rne_of_int)
  then show ?thesis using False pow2_pos [of "f32_exponent x - 23"]
    by (simp add: f32_round_pos_eq)
qed

lemma f32_round_mono_pos:
  assumes "0 < x" "x \<le> y"
  shows "f32_round x \<le> f32_round y"
proof -
  have y: "0 < y" using assms by simp
  have le: "f32_exponent x \<le> f32_exponent y"
    using ilog2_mono [OF assms] assms y by (simp add: f32_exponent_def)
  show ?thesis
  proof (cases "f32_exponent x = f32_exponent y")
    case True
    define q :: rat where "q = 2 powi (f32_exponent y - 23)"
    have q: "0 < q" unfolding q_def by (rule pow2_pos)
    have "x / q \<le> y / q" using assms q by (simp add: divide_right_mono)
    then have "rne (x / q) \<le> rne (y / q)" by (rule rne_mono)
    then have "rat_of_int (rne (x / q)) * q \<le> of_int (rne (y / q)) * q" using q by simp
    then show ?thesis using assms y True by (simp add: f32_round_pos_eq q_def)
  next
    case False
    with le have lt: "f32_exponent x + 1 \<le> f32_exponent y" by simp
    then have "- 126 < f32_exponent y" by (simp add: f32_exponent_def)
    then have il: "- 126 \<le> ilog2 y" using y by (simp add: f32_exponent_def)
    have "f32_round x \<le> 2 powi (f32_exponent x + 1)" using assms(1) by (rule f32_round_upper)
    also have "\<dots> \<le> 2 powi (f32_exponent y)" using lt by (intro power_int_increasing) simp_all
    also have "\<dots> \<le> f32_round y" using y il by (rule f32_round_lower)
    finally show ?thesis .
  qed
qed

lemma f32_round_mono:
  assumes "x \<le> y"
  shows "f32_round x \<le> f32_round y"
proof -
  consider "0 < x" | "x \<le> 0" "0 \<le> y" | "y < 0" by linarith
  then show ?thesis
  proof cases
    case 1
    then show ?thesis using assms by (rule f32_round_mono_pos)
  next
    case 2
    then have "0 \<le> f32_round (- x)" "0 \<le> f32_round y" by (simp_all add: f32_round_nonneg)
    then show ?thesis by (simp add: f32_round_minus)
  next
    case 3
    then have "f32_round (- y) \<le> f32_round (- x)" using assms by (intro f32_round_mono_pos) simp_all
    then show ?thesis by (simp add: f32_round_minus)
  qed
qed


lemma f32_round_int_pos:
  assumes "0 < n" "n \<le> 2 ^ 24"
  shows "f32_round (of_int n) = of_int n"
proof -
  define x where "x = rat_of_int n"
  define e where "e = ilog2 x"
  have x: "0 < x" "1 \<le> x" "x \<le> 2 ^ 24" using assms unfolding x_def
    by simp_all
  have lo: "2 powi e \<le> x" and hi: "x < 2 powi (e + 1)"
    unfolding e_def using x(1) by (rule ilog2_lower, rule ilog2_upper)
  have e0: "0 \<le> e"
  proof (rule ccontr)
    assume "\<not> 0 \<le> e"
    then have "e + 1 \<le> 0" by simp
    then have "(2::rat) powi (e + 1) \<le> 2 powi 0" by (intro power_int_increasing) simp_all
    with hi x(2) show False by simp
  qed
  have e24: "e \<le> 24"
  proof (rule ccontr)
    assume "\<not> e \<le> 24"
    then have "25 \<le> e" by simp
    then have "(2::rat) powi 25 \<le> 2 powi e" by (intro power_int_increasing) simp_all
    with lo x(3) show False by simp
  qed
  have fe: "f32_exponent x = e" using e0 x(1) by (simp add: f32_exponent_def e_def)
  have x0: "x \<noteq> 0" using x(1) by simp
  show ?thesis
  proof (cases "e \<le> 23")
    case True
    define k where "k = nat (23 - e)"
    have q: "(2::rat) powi (e - 23) = 1 / 2 ^ k"
    proof -
      have "e - 23 = - int k" using True by (simp add: k_def)
      then show ?thesis by (simp add: power_int_minus_divide)
    qed
    have "x / (1 / 2 ^ k) = of_int (n * 2 ^ k)" by (simp add: x_def)
    then have "rne (x / (1 / 2 ^ k)) = n * 2 ^ k" by (simp only: rne_of_int)
    moreover have "f32_round x = of_int (rne (x / (1 / 2 ^ k))) * (1 / 2 ^ k)"
      using x0 by (simp add: f32_round_pos_eq fe q)
    ultimately have "f32_round x = of_int (n * 2 ^ k) * (1 / 2 ^ k)" by simp
    then show ?thesis by (simp add: x_def)
  next
    case False
    with e24 have e: "e = 24" by simp
    with lo x(3) have xv: "x = 2 ^ 24" by simp
    have "rne (rat_of_int (2 ^ 23)) = 2 ^ 23" by (rule rne_of_int)
    then have "rne (2 ^ 23 :: rat) = 2 ^ 23" by simp
    then have "f32_round x = x" using x0 fe by (simp add: f32_round_pos_eq e xv)
    then show ?thesis by (simp add: x_def)
  qed
qed

lemma f32_round_int:
  assumes "\<bar>n\<bar> \<le> 2 ^ 24"
  shows "f32_round (of_int n) = of_int n"
proof -
  consider "0 < n" | "n = 0" | "n < 0" by linarith
  then show ?thesis
  proof cases
    case 1
    then show ?thesis using assms by (intro f32_round_int_pos) simp_all
  next
    case 2
    then show ?thesis by (simp add: f32_round_0)
  next
    case 3
    then have "f32_round (of_int (- n)) = of_int (- n)" using assms
      by (intro f32_round_int_pos) simp_all
    then show ?thesis by (simp add: f32_round_minus)
  qed
qed

lemma f32_round_1: "f32_round 1 = 1"
  using f32_round_int [of 1] by simp

lemma f32_of_nat_exact: "n \<le> 2 ^ 24 \<Longrightarrow> f32_of_nat n = of_nat n"
  using f32_round_int [of "int n"] by (simp add: f32_of_nat_def)

lemma f32_of_nat_mono: "m \<le> n \<Longrightarrow> f32_of_nat m \<le> f32_of_nat n"
  by (simp add: f32_of_nat_def f32_round_mono)

lemma f32_of_nat_nonneg: "0 \<le> f32_of_nat n"
  by (simp add: f32_of_nat_def f32_round_nonneg)

lemma lerp_t_nonneg: "0 \<le> lerp_t y h"
  unfolding lerp_t_def f32_div_def
  by (intro f32_round_nonneg divide_nonneg_nonneg f32_of_nat_nonneg)

lemma lerp_t_le_1:
  assumes "y \<le> h"
  shows "lerp_t y h \<le> 1"
proof -
  have "f32_of_nat y / f32_of_nat h \<le> 1"
  proof (cases "f32_of_nat h = 0")
    case True
    then show ?thesis by simp
  next
    case False
    then have "0 < f32_of_nat h" using f32_of_nat_nonneg [of h] by simp
    then show ?thesis using f32_of_nat_mono [OF assms] by simp
  qed
  then have "f32_round (f32_of_nat y / f32_of_nat h) \<le> f32_round 1" by (rule f32_round_mono)
  then show ?thesis by (simp add: lerp_t_def f32_div_def f32_round_1)
qed

lemma lerp_t_mono:
  assumes "y1 \<le> y2"
  shows "lerp_t y1 h \<le> lerp_t y2 h"
  unfolding lerp_t_def f32_div_def
  by (intro f32_round_mono divide_right_mono f32_of_nat_mono assms f32_of_nat_nonneg)

lemma lerp_t_0: "lerp_t 0 h = 0"
  by (simp add: lerp_t_def f32_div_def f32_of_nat_def f32_round_0)

section \<open>Interpolated values stay between the two channels\<close>

lemma lerp_value_bounds:
  assumes t: "0 \<le> t" "t \<le> 1" and c: "0 \<le> c0" "c0 \<le> 255" "0 \<le> c1" "c1 \<le> 255"
  shows "of_int (min c0 c1) \<le> lerp_value t c0 c1" "lerp_value t c0 c1 \<le> of_int (max c0 c1)"
proof -
  define d where "d = c1 - c0"
  define p where "p = f32_round (t * of_int d)"
  have "\<bar>c0\<bar> \<le> 2 ^ 24" "\<bar>c1\<bar> \<le> 2 ^ 24" "\<bar>d\<bar> \<le> 2 ^ 24"
    using c by (simp_all add: d_def)
  then have r0: "f32_round (of_int c0) = of_int c0" and r1: "f32_round (of_int c1) = of_int c1"
    and rd: "f32_round (of_int d) = of_int d"
    by (simp_all only: f32_round_int)
  have v: "lerp_value t c0 c1 = f32_round (of_int c0 + p)"
    by (simp only: lerp_value_def f32_add_def f32_mul_def f32_of_int_def r0 rd p_def
        d_def [symmetric])
  have c1: "rat_of_int c1 = of_int c0 + of_int d" by (simp add: d_def)
  have both: "of_int (min c0 c1) \<le> lerp_value t c0 c1 \<and> lerp_value t c0 c1 \<le> of_int (max c0 c1)"
  proof (cases "0 \<le> d")
    case True
    then have "0 \<le> t * rat_of_int d" "t * rat_of_int d \<le> of_int d" using t
      by (simp_all add: mult_left_le_one_le)
    then have "f32_round 0 \<le> p" "p \<le> f32_round (of_int d)"
      unfolding p_def by (simp_all add: f32_round_mono)
    then have "0 \<le> p" "p \<le> of_int d" by (simp_all add: f32_round_0 rd)
    then have "f32_round (of_int c0) \<le> f32_round (of_int c0 + p)"
      "f32_round (of_int c0 + p) \<le> f32_round (of_int c1)"
      by (simp_all add: f32_round_mono c1)
    then show ?thesis using True by (simp add: v r0 r1 d_def)
  next
    case False
    then have "t * rat_of_int d \<le> 0" "of_int d \<le> t * rat_of_int d" using t
      by (simp_all add: mult_nonneg_nonpos mult_left_le_one_le
          mult_le_cancel_right2)
    then have "p \<le> f32_round 0" "f32_round (of_int d) \<le> p"
      unfolding p_def by (simp_all add: f32_round_mono)
    then have "p \<le> 0" "of_int d \<le> p" by (simp_all add: f32_round_0 rd)
    then have "f32_round (of_int c0 + p) \<le> f32_round (of_int c0)"
      "f32_round (of_int c1) \<le> f32_round (of_int c0 + p)"
      by (simp_all add: f32_round_mono c1)
    then show ?thesis using False by (simp add: v r0 r1 d_def)
  qed
  from both show "of_int (min c0 c1) \<le> lerp_value t c0 c1" ..
  from both show "lerp_value t c0 c1 \<le> of_int (max c0 c1)" ..
qed

lemma lerp_value_mono:
  assumes "t1 \<le> t2" "c0 \<le> c1"
  shows "lerp_value t1 c0 c1 \<le> lerp_value t2 c0 c1"
proof -
  have "0 \<le> f32_of_int (c1 - c0)"
    unfolding f32_of_int_def using assms(2) by (intro f32_round_nonneg) simp
  then have "t1 * f32_of_int (c1 - c0) \<le> t2 * f32_of_int (c1 - c0)"
    using assms(1) by (rule mult_right_mono [rotated])
  then show ?thesis
    unfolding lerp_value_def f32_add_def f32_mul_def
    by (intro f32_round_mono add_left_mono)
qed

lemma lerp_value_t0:
  assumes "0 \<le> c0" "c0 \<le> 255"
  shows "lerp_value 0 c0 c1 = of_int c0"
proof -
  have "\<bar>c0\<bar> \<le> 2 ^ 24" using assms by simp
  then have "f32_round (of_int c0) = of_int c0" by (rule f32_round_int)
  then show ?thesis
    by (simp add: lerp_value_def f32_add_def f32_mul_def f32_round_0 f32_of_int_def)
qed

lemma lerp_value_same:
  assumes "0 \<le> c0" "c0 \<le> 255"
  shows "lerp_value t c0 c0 = of_int c0"
proof -
  have "\<bar>c0\<bar> \<le> 2 ^ 24" using assms by simp
  then have "f32_round (of_int c0) = of_int c0" by (rule f32_round_int)
  then show ?thesis
    by (simp add: lerp_value_def f32_add_def f32_mul_def f32_round_0 f32_of_int_def)
qed

lemma uint_cast_u8:
  assumes "0 \<le> v" "v \<le> 255"
  shows "uint (cast_u8 v) = \<lfloor>v\<rfloor>"
proof -
  have "0 \<le> \<lfloor>v\<rfloor>" using assms(1) by simp
  moreover have "\<lfloor>v\<rfloor> \<le> \<lfloor>255 :: rat\<rfloor>" using assms(2) by (rule floor_mono)
  then have "\<lfloor>v\<rfloor> \<le> 255" by simp
  ultimately show ?thesis using assms(1)
    by (simp add: cast_u8_def truncate_int_def uint_word_of_int take_bit_eq_mod)
qed

lemma truncate_int_of_int: "truncate_int (of_int n) = n"
  by (simp add: truncate_int_def)

lemma cast_u8_of_int: "cast_u8 (of_int (uint c)) = c"
  by (simp only: cast_u8_def truncate_int_of_int word_of_int_uint)

lemma uint_u8_bounds: "0 \<le> uint (c :: 8 word)" "uint (c :: 8 word) \<le> 255"
  using uint_lt2p [of c] by simp_all

lemma x_loop_pixels:
  "pixels (x_loop w h A B y x img) (px, py) =
     (if py = y \<and> x \<le> px \<and> px < w then Some (pixel_color h A B y)
      else pixels img (px, py))"
proof (induction w h A B y x img rule: x_loop.induct)
  case (1 w h A B y x img)
  show ?case
  proof (cases "x < w")
    case True
    then show ?thesis
      using "1.IH" [OF True] by (subst x_loop.simps) (auto simp: setPixel_def)
  next
    case False
    then show ?thesis by (subst x_loop.simps) auto
  qed
qed

lemma y_loop_pixels:
  "pixels (y_loop w h A B y img) (px, py) =
     (if y \<le> py \<and> py < h \<and> px < w then Some (pixel_color h A B py)
      else pixels img (px, py))"
proof (induction w h A B y img rule: y_loop.induct)
  case (1 w h A B y img)
  show ?case
  proof (cases "y < h")
    case True
    then show ?thesis
      using "1.IH" [OF True] by (subst y_loop.simps) (auto simp: x_loop_pixels)
  next
    case False
    then show ?thesis by (subst y_loop.simps) auto
  qed
qed

lemma getPixel_gradient:
  "getPixel (gradient w h A B) x y =
     (if x < w \<and> y < h then Some (pixel_color h A B y) else None)"
  by (simp add: getPixel_def gradient_def y_loop_pixels create_def)

lemma lerp_value_in_byte:
  assumes "0 \<le> t" "t \<le> 1"
  shows "0 \<le> lerp_value t (uint (c0 :: 8 word)) (uint (c1 :: 8 word))"
    and "lerp_value t (uint c0) (uint c1) \<le> 255"
proof -
  note b = lerp_value_bounds [OF assms uint_u8_bounds(1) uint_u8_bounds(2)
      uint_u8_bounds(1) uint_u8_bounds(2), of c0 c1]
  have "0 \<le> min (uint c0) (uint c1)" "max (uint c0) (uint c1) \<le> 255"
    by (simp_all add: uint_u8_bounds)
  then have "(0::rat) \<le> of_int (min (uint c0) (uint c1))"
    "rat_of_int (max (uint c0) (uint c1)) \<le> 255"
    by (simp_all only: of_int_0_le_iff of_int_le_numeral_iff)
  with b show "0 \<le> lerp_value t (uint c0) (uint c1)" "lerp_value t (uint c0) (uint c1) \<le> 255"
    by linarith+
qed

lemma uint_lerp_channel:
  assumes "0 \<le> t" "t \<le> 1"
  shows "uint (lerp_channel t c0 c1) = \<lfloor>lerp_value t (uint c0) (uint c1)\<rfloor>"
  unfolding lerp_channel_def using lerp_value_in_byte [OF assms] by (rule uint_cast_u8)

lemma lerp_channel_mono:
  assumes "0 \<le> t1" "t1 \<le> t2" "t2 \<le> 1" "c0 \<le> c1"
  shows "lerp_channel t1 c0 c1 \<le> lerp_channel t2 c0 c1"
proof -
  have "uint c0 \<le> uint c1" using assms(4) by (simp add: word_le_def)
  with assms(2) have "lerp_value t1 (uint c0) (uint c1) \<le> lerp_value t2 (uint c0) (uint c1)"
    by (rule lerp_value_mono)
  then have "\<lfloor>lerp_value t1 (uint c0) (uint c1)\<rfloor> \<le> \<lfloor>lerp_value t2 (uint c0) (uint c1)\<rfloor>"
    by (rule floor_mono)
  then show ?thesis using assms by (simp add: word_le_def uint_lerp_channel)
qed

lemma lerp_channel_t0: "lerp_channel 0 c0 c1 = c0"
  by (simp only: lerp_channel_def lerp_value_t0 [OF uint_u8_bounds] cast_u8_of_int)

lemma lerp_channel_same: "lerp_channel t c0 c0 = c0"
  by (simp only: lerp_channel_def lerp_value_same [OF uint_u8_bounds] cast_u8_of_int)

lemma rgb_pixel_color:
  "rgb (pixel_color h A B y) =
     (lerp_channel (lerp_t y h) (red A) (red B),
      lerp_channel (lerp_t y h) (green A) (green B),
      lerp_channel (lerp_t y h) (blue A) (blue B))"
  by (simp add: rgb_def pixel_color_def mk_color_def Let_def)



lemma x_loop_size:
  "size_x (x_loop w h A B y x img) = size_x img \<and> size_y (x_loop w h A B y x img) = size_y img"
proof (induction w h A B y x img rule: x_loop.induct)
  case (1 w h A B y x img)
  show ?case
  proof (cases "x < w")
    case True
    then show ?thesis
      using "1.IH" [OF True] by (subst (1 2) x_loop.simps) (simp add: setPixel_def)
  next
    case False
    then show ?thesis by (subst (1 2) x_loop.simps) simp
  qed
qed

lemma y_loop_size:
  "size_x (y_loop w h A B y img) = size_x img \<and> size_y (y_loop w h A B y img) = size_y img"
proof (induction w h A B y img rule: y_loop.induct)
  case (1 w h A B y img)
  show ?case
  proof (cases "y < h")
    case True
    then show ?thesis
      using "1.IH" [OF True] by (subst (1 2) y_loop.simps) (simp add: x_loop_size)
  next
    case False
    then show ?thesis by (subst (1 2) y_loop.simps) simp
  qed
qed

lemma size_gradient:
  "size_x (gradient w h A B) = (if w \<noteq> 0 \<and> h \<noteq> 0 then w else 0)"
  "size_y (gradient w h A B) = (if w \<noteq> 0 \<and> h \<noteq> 0 then h else 0)"
  by (simp_all add: gradient_def y_loop_size create_def)

lemma rgb_getPixel_gradient:
  "x < w \<Longrightarrow> y < h \<Longrightarrow>
   map_option rgb (getPixel (gradient w h A B) x y) =
     Some (lerp_channel (lerp_t y h) (red A) (red B),
           lerp_channel (lerp_t y h) (green A) (green B),
           lerp_channel (lerp_t y h) (blue A) (blue B))"
  by (simp add: getPixel_gradient rgb_pixel_color)

lemma rgb_mk_color: "rgb (mk_color cr cg cb) = (cr, cg, cb)"
  by (simp add: rgb_def mk_color_def)

lemma lerp_t_half: "lerp_t 1 2 = 1 / 2"
  by (simp add: lerp_t_def f32_of_nat_def) code_simp

lemma pixel_2x2_row1:
  "rgb (pixel_color 2 (mk_color 24 18 43) (mk_color 255 56 100) 1) = (139, 37, 71)"
  by (simp add: rgb_pixel_color lerp_t_def f32_of_nat_def) code_simp

lemma lerp_value_unfold:
  assumes "\<bar>c0\<bar> \<le> 2 ^ 24" "\<bar>c1 - c0\<bar> \<le> 2 ^ 24"
  shows "lerp_value t c0 c1 = f32_add (of_int c0) (f32_mul t (of_int (c1 - c0)))"
  by (simp only: lerp_value_def f32_of_int_def f32_round_int [OF assms(1)]
      f32_round_int [OF assms(2)])




section \<open>Rows of images of moderate height\<close>





text \<open>
  The two bounds on the height are needed once the height is a parameter: above \<open>2 ^ 24\<close>
  a row number and the height can convert to the same \<^verbatim>\<open>float\<close>, and in a very tall
  image the sum can round up to the end value. Neither happens at the 400 rows of the
  program.
\<close>

lemma lerp_t_can_reach_one: "lerp_t 16777216 16777217 = 1"
  by (simp add: lerp_t_def f32_of_nat_def) code_simp

lemma tall_image_can_reach_end:
  "rgb (pixel_color 131072 (mk_color 254 0 0) (mk_color 255 0 0) 131071) = (255, 0, 0)"
  by (simp add: rgb_pixel_color lerp_t_def f32_of_nat_def) code_simp

section \<open>The exit status\<close>

lemma event_loop_status:
  "event_loop fs isOpen tr = (tr', Some s) \<Longrightarrow> s = 0"
  by (induction fs arbitrary: isOpen tr) (auto split: if_splits)

lemma main_normal_run:
  "main \<lparr>window_opens = True, font_loads = True, frames = [[OtherEvent], [Closed]]\<rparr>
     = \<lparr>background = bgImage,
        trace = [OpenWindow, BuildBackground, LoadFont, CreateText Title, CreateText Desc,
                 CreateButton, CreateText BtnText, PollEvents, Render, PollEvents, Render],
        exit_status = Some 0\<rparr>"
  by (simp add: main_def)

section \<open>The claims\<close>



text \<open>
  C3. \<open>generate(2, 2, (24,18,43), (255,56,100))\<close> produces a 2x2 image; both pixels of
  row 0 are (24,18,43), and both pixels of row 1, where \<open>t = 0.5\<close>, are (139,37,71).
\<close>

theorem generate_2x2_scenario:
  "\<exists>img. generate 2 2 (mk_color 24 18 43) (mk_color 255 56 100) = Inr img
     \<and> size_x img = 2 \<and> size_y img = 2
     \<and> map_option rgb (getPixel img 0 0) = Some (24, 18, 43)
     \<and> map_option rgb (getPixel img 1 0) = Some (24, 18, 43)
     \<and> lerp_t 1 2 = 1 / 2
     \<and> map_option rgb (getPixel img 0 1) = Some (139, 37, 71)
     \<and> map_option rgb (getPixel img 1 1) = Some (139, 37, 71)"
proof -
  let ?A = "mk_color 24 18 43" and ?B = "mk_color 255 56 100"
  have row0: "rgb (pixel_color 2 ?A ?B 0) = (24, 18, 43)"
    by (simp add: rgb_pixel_color lerp_t_0 lerp_channel_t0 mk_color_def)
  have r0: "map_option rgb (getPixel (gradient 2 2 ?A ?B) x 0) = Some (24, 18, 43)"
    if "x < 2" for x
    using that row0 by (simp add: getPixel_gradient)
  have r1: "map_option rgb (getPixel (gradient 2 2 ?A ?B) x 1) = Some (139, 37, 71)"
    if "x < 2" for x
    using that pixel_2x2_row1 by (simp add: getPixel_gradient del: One_nat_def)
  have "generate 2 2 ?A ?B = Inr (gradient 2 2 ?A ?B)" by (simp add: generate_def)
  moreover have "size_x (gradient 2 2 ?A ?B) = 2" "size_y (gradient 2 2 ?A ?B) = 2"
    by (simp_all add: size_gradient)
  moreover note r0 [of 0] r0 [of 1] lerp_t_half r1 [of 0] r1 [of 1]
  ultimately show ?thesis by (intro exI [of _ "gradient 2 2 ?A ?B"] conjI) simp_all
qed

text \<open>
  C4. For every valid input and every row \<open>y\<close>, all pixels of the row have the same
  colour: the colour depends on \<open>y\<close> and not on the column.
\<close>

theorem row_has_one_color:
  assumes "generate w h A B = Inr img" and "0 < w" "0 < h"
    and "y < h" "x1 < w" "x2 < w"
  shows "getPixel img x1 y = getPixel img x2 y \<and> getPixel img x1 y = Some (pixel_color h A B y)"
proof -
  from assms(1) have "img = gradient w h A B" by (simp add: generate_def)
  then show ?thesis using assms(4-6) by (simp add: getPixel_gradient)
qed

theorem row_has_one_color_witness:
  "generate 600 400 startColor endColor = Inr bgImage \<and> (0::nat) < 600 \<and> (0::nat) < 400
   \<and> (7::nat) < 400 \<and> (0::nat) < 600 \<and> (599::nat) < 600
   \<and> getPixel bgImage 0 7 = getPixel bgImage 599 7
   \<and> getPixel bgImage 0 7 = Some (pixel_color 400 startColor endColor 7)"
proof -
  have g: "generate 600 400 startColor endColor = Inr bgImage"
    by (simp add: generate_def bgImage_def)
  from row_has_one_color [OF g, of 7 0 599] g show ?thesis by auto
qed

text \<open>
  C5. For every valid input with start colour \<open>A\<close>, every pixel of row 0 has the three
  channels of \<open>A\<close>, because \<open>t = 0\<close> at \<open>y = 0\<close>.
\<close>

theorem row_0_is_start_color:
  assumes "generate w h A B = Inr img" and "0 < w" "0 < h" and "x < w"
  shows "lerp_t 0 h = 0 \<and> map_option rgb (getPixel img x 0) = Some (rgb A)"
proof -
  from assms(1) have "img = gradient w h A B" by (simp add: generate_def)
  then have "map_option rgb (getPixel img x 0) = Some (red A, green A, blue A)"
    using assms(3,4) by (simp add: rgb_getPixel_gradient lerp_t_0 lerp_channel_t0)
  then show ?thesis by (simp add: lerp_t_0 rgb_def [of A])
qed

theorem row_0_is_start_color_witness:
  "generate 600 400 startColor endColor = Inr bgImage \<and> (0::nat) < 600 \<and> (0::nat) < 400
   \<and> (123::nat) < 600
   \<and> lerp_t 0 400 = 0 \<and> map_option rgb (getPixel bgImage 123 0) = Some (24, 18, 43)"
proof -
  have g: "generate 600 400 startColor endColor = Inr bgImage"
    by (simp add: generate_def bgImage_def)
  from row_0_is_start_color [OF g, of 123] g show ?thesis
    by (simp add: startColor_def rgb_mk_color)
qed

text \<open>
  C6. For every positive width and height and every colour \<open>A\<close>, \<open>generate(width, height, A, A)\<close>
  returns an image all of whose pixels have the three channels of \<open>A\<close>.
\<close>

theorem same_colors_give_flat_image:
  assumes "0 < w" "0 < h" and "x < w" "y < h"
  shows "\<exists>img. generate w h A A = Inr img \<and> map_option rgb (getPixel img x y) = Some (rgb A)"
proof -
  have "map_option rgb (getPixel (gradient w h A A) x y) = Some (red A, green A, blue A)"
    using assms(3,4) by (simp add: rgb_getPixel_gradient lerp_channel_same)
  then show ?thesis by (simp add: generate_def rgb_def [of A])
qed

theorem same_colors_give_flat_image_witness:
  "(0::nat) < 600 \<and> (0::nat) < 400 \<and> (599::nat) < 600 \<and> (399::nat) < 400
   \<and> (\<exists>img. generate 600 400 endColor endColor = Inr img
        \<and> map_option rgb (getPixel img 599 399) = Some (255, 56, 100))"
  using same_colors_give_flat_image [of 600 400 599 399 endColor]
  by (simp add: endColor_def rgb_mk_color)

text \<open>
  C7. For every valid input whose start colour has a smaller red channel than the end
  colour and the same green and blue channels, the red channel does not decrease down
  the image: for rows \<open>y1 \<le> y2\<close> the red of row \<open>y1\<close> is at most the red of row \<open>y2\<close>.
\<close>

theorem red_channel_nondecreasing:
  assumes "generate w h A B = Inr img" and "0 < w" "0 < h"
    and "red A < red B" "green A = green B" "blue A = blue B"
    and "y1 \<le> y2" "y2 < h" "x1 < w" "x2 < w"
  shows "\<exists>c1 c2. getPixel img x1 y1 = Some c1 \<and> getPixel img x2 y2 = Some c2
           \<and> red c1 \<le> red c2"
proof -
  from assms(1) have img: "img = gradient w h A B" by (simp add: generate_def)
  have "lerp_channel (lerp_t y1 h) (red A) (red B) \<le> lerp_channel (lerp_t y2 h) (red A) (red B)"
    using assms(4,7,8) by (intro lerp_channel_mono lerp_t_nonneg lerp_t_mono lerp_t_le_1) simp_all
  then show ?thesis using assms(7-10)
    by (simp add: img getPixel_gradient pixel_color_def mk_color_def Let_def)
qed

theorem red_channel_nondecreasing_witness:
  "generate 600 400 (mk_color 24 18 43) (mk_color 255 18 43)
      = Inr (gradient 600 400 (mk_color 24 18 43) (mk_color 255 18 43))
   \<and> (0::nat) < 600 \<and> (0::nat) < 400
   \<and> red (mk_color 24 18 43) < red (mk_color 255 18 43)
   \<and> green (mk_color 24 18 43) = green (mk_color 255 18 43)
   \<and> blue (mk_color 24 18 43) = blue (mk_color 255 18 43)
   \<and> (10::nat) \<le> 20 \<and> (20::nat) < 400 \<and> (5::nat) < 600 \<and> (0::nat) < 600
   \<and> (\<exists>c1 c2. getPixel (gradient 600 400 (mk_color 24 18 43) (mk_color 255 18 43)) 5 10 = Some c1
         \<and> getPixel (gradient 600 400 (mk_color 24 18 43) (mk_color 255 18 43)) 0 20 = Some c2
         \<and> red c1 \<le> red c2)"
proof -
  have g: "generate 600 400 (mk_color 24 18 43) (mk_color 255 18 43)
      = Inr (gradient 600 400 (mk_color 24 18 43) (mk_color 255 18 43))"
    by (simp add: generate_def)
  have c: "red (mk_color 24 18 43) < red (mk_color 255 18 43)"
    "green (mk_color 24 18 43) = green (mk_color 255 18 43)"
    "blue (mk_color 24 18 43) = blue (mk_color 255 18 43)"
    by (simp_all add: mk_color_def)
  from red_channel_nondecreasing [OF g _ _ c, of 10 20 5 0] g c show ?thesis by simp
qed

text \<open>
  C8. When the font file does not load, the program returns exit status 1 at once,
  before it creates a text object or enters the event loop; no other path returns a
  status other than 0.
\<close>

theorem font_failure_is_the_only_failure:
  "(\<not> font_loads e \<longrightarrow>
       exit_status (main e) = Some 1 \<and> trace (main e) = [OpenWindow, BuildBackground, LoadFont])
   \<and> (exit_status (main e) = Some s \<and> s \<noteq> 0 \<longrightarrow> s = 1 \<and> \<not> font_loads e)"
proof (cases "font_loads e")
  case False
  then show ?thesis by (simp add: main_def)
next
  case True
  obtain tr' st where el: "event_loop (frames e) (window_opens e)
      ([OpenWindow, BuildBackground, LoadFont]
        @ [CreateText Title, CreateText Desc, CreateButton, CreateText BtnText]) = (tr', st)"
    by (cases "event_loop (frames e) (window_opens e)
      ([OpenWindow, BuildBackground, LoadFont]
        @ [CreateText Title, CreateText Desc, CreateButton, CreateText BtnText])")
  then have "exit_status (main e) = st" using True by (simp add: main_def)
  moreover have "st = Some s \<Longrightarrow> s = 0" using el event_loop_status by blast
  ultimately show ?thesis using True by auto
qed

theorem font_failure_is_the_only_failure_witness:
  "\<not> font_loads \<lparr>window_opens = True, font_loads = False, frames = [[OtherEvent], [Closed]]\<rparr>
   \<and> exit_status (main \<lparr>window_opens = True, font_loads = False,
          frames = [[OtherEvent], [Closed]]\<rparr>) = Some 1
   \<and> (1::int) \<noteq> 0
   \<and> trace (main \<lparr>window_opens = True, font_loads = False, frames = [[OtherEvent], [Closed]]\<rparr>)
       = [OpenWindow, BuildBackground, LoadFont]"
  using font_failure_is_the_only_failure
    [of "\<lparr>window_opens = True, font_loads = False, frames = [[OtherEvent], [Closed]]\<rparr>" 1]
  by simp



text \<open>
  C10. For every row \<open>y < 400\<close> of the program's image, with \<open>t = y / 400\<close> in binary32,
  the values \<open>24 + t * (255 - 24)\<close>, \<open>18 + t * (56 - 18)\<close> and \<open>43 + t * (100 - 43)\<close> lie between
  the start and the end value of their channel, so within [0, 255]; the cast to 8 bits
  does not wrap, and each stored channel is the floor of the computed value.
\<close>

theorem program_channels_do_not_wrap:
  assumes "y < 400" "x < 600"
  shows "let t = f32_div (f32_of_nat y) 400;
             vr = f32_add 24 (f32_mul t (255 - 24));
             vg = f32_add 18 (f32_mul t (56 - 18));
             vb = f32_add 43 (f32_mul t (100 - 43))
         in 24 \<le> vr \<and> vr \<le> 255 \<and> 18 \<le> vg \<and> vg \<le> 56 \<and> 43 \<le> vb \<and> vb \<le> 100
            \<and> (\<exists>c. getPixel bgImage x y = Some c
                  \<and> red c = cast_u8 vr \<and> green c = cast_u8 vg \<and> blue c = cast_u8 vb
                  \<and> uint (red c) = \<lfloor>vr\<rfloor> \<and> uint (green c) = \<lfloor>vg\<rfloor> \<and> uint (blue c) = \<lfloor>vb\<rfloor>)"
proof -
  define t where "t = lerp_t y 400"
  have t: "t = f32_div (f32_of_nat y) 400"
    using f32_of_nat_exact [of 400] by (simp add: t_def lerp_t_def)
  have t0: "0 \<le> t" unfolding t_def by (rule lerp_t_nonneg)
  have t1: "t \<le> 1" unfolding t_def using assms(1) by (intro lerp_t_le_1) simp
  have vr: "lerp_value t 24 255 = f32_add 24 (f32_mul t (255 - 24))"
    and vg: "lerp_value t 18 56 = f32_add 18 (f32_mul t (56 - 18))"
    and vb: "lerp_value t 43 100 = f32_add 43 (f32_mul t (100 - 43))"
    by (simp_all add: lerp_value_unfold)
  have br: "24 \<le> lerp_value t 24 255 \<and> lerp_value t 24 255 \<le> 255"
    using lerp_value_bounds [OF t0 t1, of 24 255] by simp
  have bg: "18 \<le> lerp_value t 18 56 \<and> lerp_value t 18 56 \<le> 56"
    using lerp_value_bounds [OF t0 t1, of 18 56] by simp
  have bb: "43 \<le> lerp_value t 43 100 \<and> lerp_value t 43 100 \<le> 100"
    using lerp_value_bounds [OF t0 t1, of 43 100] by simp
  have px: "getPixel bgImage x y = Some (pixel_color 400 startColor endColor y)"
    using assms by (simp add: bgImage_def getPixel_gradient)
  have ch: "red (pixel_color 400 startColor endColor y) = cast_u8 (lerp_value t 24 255)"
    "green (pixel_color 400 startColor endColor y) = cast_u8 (lerp_value t 18 56)"
    "blue (pixel_color 400 startColor endColor y) = cast_u8 (lerp_value t 43 100)"
    by (simp_all add: pixel_color_def startColor_def endColor_def mk_color_def Let_def t_def
        lerp_channel_def)
  have fl: "uint (cast_u8 (lerp_value t 24 255)) = \<lfloor>lerp_value t 24 255\<rfloor>"
    "uint (cast_u8 (lerp_value t 18 56)) = \<lfloor>lerp_value t 18 56\<rfloor>"
    "uint (cast_u8 (lerp_value t 43 100)) = \<lfloor>lerp_value t 43 100\<rfloor>"
    using br bg bb by (simp_all add: uint_cast_u8)
  show ?thesis
    unfolding Let_def t [symmetric] vr [symmetric] vg [symmetric] vb [symmetric]
    using br bg bb px ch fl by simp
qed

theorem program_channels_do_not_wrap_witness:
  "(399::nat) < 400 \<and> (0::nat) < 600
   \<and> (let t = f32_div (f32_of_nat 399) 400;
             vr = f32_add 24 (f32_mul t (255 - 24));
             vg = f32_add 18 (f32_mul t (56 - 18));
             vb = f32_add 43 (f32_mul t (100 - 43))
         in 24 \<le> vr \<and> vr \<le> 255 \<and> 18 \<le> vg \<and> vg \<le> 56 \<and> 43 \<le> vb \<and> vb \<le> 100
            \<and> (\<exists>c. getPixel bgImage 0 399 = Some c
                  \<and> red c = cast_u8 vr \<and> green c = cast_u8 vg \<and> blue c = cast_u8 vb
                  \<and> uint (red c) = \<lfloor>vr\<rfloor> \<and> uint (green c) = \<lfloor>vg\<rfloor> \<and> uint (blue c) = \<lfloor>vb\<rfloor>))"
  using program_channels_do_not_wrap [of 399 0] by simp

end
